theory Spec2Isabelle
  imports Main
begin

section \<open>Data model of \<open>feedly_asset_sync/main.py\<close>\<close>

text \<open>
  The Feedly snapshot is the JSON list returned by \<open>fetch_feedly_data\<close>: a list of dicts,
  each of which may or may not carry the keys \<open>"id"\<close>, \<open>"label"\<close> and \<open>"entities"\<close>; an
  entity is a dict that may or may not carry \<open>"text"\<close>. A key that is absent is \<open>None\<close>
  here, so that \<open>item["k"]\<close> (KeyError when absent) and \<open>item.get("k", d)\<close> are told apart.
\<close>

record entity =
  etype :: "string option"
  etext :: "string option"

record feedly_item =
  item_id :: "string option"
  label :: "string option"
  entities :: "entity list option"

text \<open>
  The payload dicts built at lines 266-271 (with \<open>"id"\<close>) and 356-360 (without).
\<close>

record payload =
  p_id :: "string option"
  p_label :: string
  p_entities :: "entity list"
  p_type :: string

text \<open>
  What the engine does to the outside world, in order: in test mode the payload is
  rendered by \<open>logger.info\<close>; otherwise it is sent by \<open>requests.put\<close> or \<open>requests.post\<close>
  and followed by \<open>time.sleep(1)\<close>. The HTTP response only selects a log line and never
  changes the control flow, so it is not part of the model; neither are the debug lines.
\<close>

datatype event =
    Log_PUT payload
  | Log_POST payload
  | PUT payload
  | POST payload
  | Sleep nat

datatype error = KeyError string

type_synonym 'a result = "event list \<times> (error + 'a)"

section \<open>Python primitives\<close>

text \<open>\<open>s.startswith(p)\<close>.\<close>

fun startswith :: "string \<Rightarrow> string \<Rightarrow> bool" where
  "startswith s [] = True"
| "startswith [] (p # ps) = False"
| "startswith (c # s) (p # ps) = (c = p \<and> startswith s ps)"

text \<open>The decimal rendering of a non-negative integer in an f-string.\<close>

definition digit :: "nat \<Rightarrow> char" where
  "digit d = ''0123456789'' ! d"

fun str_nat_fuel :: "nat \<Rightarrow> nat \<Rightarrow> string" where
  "str_nat_fuel 0 n = [digit (n mod 10)]"
| "str_nat_fuel (Suc k) n =
     (if n < 10 then [digit n] else str_nat_fuel k (n div 10) @ [digit (n mod 10)])"

definition str_nat :: "nat \<Rightarrow> string" where
  "str_nat n = str_nat_fuel n n"

text \<open>
  A Python set of strings is a list of its elements. \<open>list(s)\<close> yields every element
  once. Python leaves the order open; here it comes from a ranking \<open>h\<close> of the strings
  (think of the hash), which is a parameter of every function below, so that each
  theorem holds for every order such a ranking can produce.
\<close>

definition list_of_set :: "(string \<Rightarrow> nat) \<Rightarrow> string list \<Rightarrow> string list" where
  "list_of_set h s = sort_key h (remdups s)"

text \<open>\<open>{entity.get("text") for entity in item.get("entities", [])}\<close>\<close>

definition current_entities :: "feedly_item \<Rightarrow> string option set" where
  "current_entities item =
     (case entities item of None \<Rightarrow> {} | Some es \<Rightarrow> set (map etext es))"

text \<open>\<open>new_entries - current_entities\<close> and \<open>new_entries -= set(to_add)\<close>.\<close>

definition minus_entities :: "string list \<Rightarrow> string option set \<Rightarrow> string list" where
  "minus_entities s cur = filter (\<lambda>n. Some n \<notin> cur) s"

definition minus_names :: "string list \<Rightarrow> string list \<Rightarrow> string list" where
  "minus_names s to_add = filter (\<lambda>n. n \<notin> set to_add) s"

definition customKeyword :: "string \<Rightarrow> entity" where
  "customKeyword name = \<lparr>etype = Some ''customKeyword'', etext = Some name\<rparr>"

section \<open>\<open>_create_new_feedly_list\<close> (lines 331-385)\<close>

text \<open>
  Lines 273-282 and 362-383: in test mode the prepared payload is logged and nothing
  else happens; otherwise the request is sent and \<open>time.sleep(1)\<close> follows it, whatever
  the answer to the request was.
\<close>

definition emit_PUT :: "bool \<Rightarrow> payload \<Rightarrow> event list" where
  "emit_PUT test_mode pl = (if test_mode then [Log_PUT pl] else [PUT pl, Sleep 1])"

definition emit_POST :: "bool \<Rightarrow> payload \<Rightarrow> event list" where
  "emit_POST test_mode pl = (if test_mode then [Log_POST pl] else [POST pl, Sleep 1])"

definition create_new_feedly_list ::
  "(string \<Rightarrow> nat) \<Rightarrow> string list \<Rightarrow> string \<Rightarrow> (string \<rightharpoonup> nat) \<Rightarrow> bool
     \<Rightarrow> (string list \<times> (string \<rightharpoonup> nat)) result" where
  "create_new_feedly_list h new_entries object_type list_counts test_mode =
     (case list_counts object_type of
        None \<Rightarrow> ([], Inl (KeyError object_type))
      | Some c \<Rightarrow>
          (let list_counts' = list_counts(object_type \<mapsto> c + 1);
               new_label = object_type @ ''-'' @ str_nat (c + 1);
               to_add = take 50 (list_of_set h new_entries);
               pl = \<lparr>p_id = None, p_label = new_label,
                      p_entities = map customKeyword to_add, p_type = ''customTopic''\<rparr>;
               evs = emit_POST test_mode pl
           in (evs, Inr (minus_names new_entries to_add, list_counts'))))"

section \<open>\<open>_add_entries_to_feedly\<close> (lines 228-297)\<close>

text \<open>
  What the body of \<open>for item in existing_lists\<close> (lines 253-286) does with one item:
  it leaves the item alone (\<open>Skip\<close>), raises, or extends the item in place, emits the
  payload and breaks out of the scan (\<open>Added\<close>, with the events, the item after
  \<open>extend\<close> and the remaining \<open>new_entries\<close>). The subscripts \<open>item["entities"]\<close>,
  \<open>item["id"]\<close> and \<open>item["label"]\<close> raise KeyError on an absent key, in the order the
  source evaluates them.
\<close>

datatype attempt = Skip | Raise error | Added "event list" feedly_item "string list"

definition try_item ::
  "(string \<Rightarrow> nat) \<Rightarrow> string list \<Rightarrow> feedly_item \<Rightarrow> bool \<Rightarrow> attempt" where
  "try_item h new_entries item test_mode =
     (case entities item of
        None \<Rightarrow> Raise (KeyError ''entities'')
      | Some es \<Rightarrow>
          if length es < 50 then
            (let to_add = list_of_set h (minus_entities new_entries (current_entities item))
             in if to_add \<noteq> [] then
                  (let space_left = 50 - length es;
                       to_add = take space_left to_add;
                       es' = es @ map customKeyword to_add
                   in case item_id item of
                        None \<Rightarrow> Raise (KeyError ''id'')
                      | Some i \<Rightarrow>
                          (case label item of
                             None \<Rightarrow> Raise (KeyError ''label'')
                           | Some l \<Rightarrow>
                               (let pl = \<lparr>p_id = Some i, p_label = l, p_entities = es',
                                           p_type = ''customTopic''\<rparr>;
                                    evs = emit_PUT test_mode pl
                                in Added evs (item\<lparr>entities := Some es'\<rparr>)
                                     (minus_names new_entries to_add))))
                else Skip)
          else Skip)"

text \<open>
  The scan itself: \<open>Inr None\<close> when it ends with \<open>added = False\<close>, and otherwise the
  events, the lists after the in-place \<open>extend\<close> and the remaining \<open>new_entries\<close>.
\<close>

fun scan_existing ::
  "(string \<Rightarrow> nat) \<Rightarrow> string list \<Rightarrow> feedly_item list \<Rightarrow> bool
     \<Rightarrow> error + (event list \<times> feedly_item list \<times> string list) option" where
  "scan_existing h new_entries [] test_mode = Inr None"
| "scan_existing h new_entries (item # rest) test_mode =
     (case try_item h new_entries item test_mode of
        Raise e \<Rightarrow> Inl e
      | Added evs item' new' \<Rightarrow> Inr (Some (evs, item' # rest, new'))
      | Skip \<Rightarrow>
          (case scan_existing h new_entries rest test_mode of
             Inl e \<Rightarrow> Inl e
           | Inr None \<Rightarrow> Inr None
           | Inr (Some (evs, rest', new')) \<Rightarrow> Inr (Some (evs, item # rest', new'))))"

text \<open>
  One pass of the body of \<open>while new_entries:\<close> (lines 251-297): the scan, and the
  call of \<open>_create_new_feedly_list\<close> when the scan added nothing.
\<close>

definition while_body ::
  "(string \<Rightarrow> nat) \<Rightarrow> string list \<Rightarrow> feedly_item list \<Rightarrow> string \<Rightarrow> (string \<rightharpoonup> nat) \<Rightarrow> bool
     \<Rightarrow> (string list \<times> feedly_item list \<times> (string \<rightharpoonup> nat)) result" where
  "while_body h new_entries existing_lists object_type list_counts test_mode =
     (case scan_existing h new_entries existing_lists test_mode of
        Inl e \<Rightarrow> ([], Inl e)
      | Inr (Some (evs, existing', new')) \<Rightarrow> (evs, Inr (new', existing', list_counts))
      | Inr None \<Rightarrow>
          (if new_entries \<noteq> [] then
             (case create_new_feedly_list h new_entries object_type list_counts test_mode of
                (evs, Inl e) \<Rightarrow> (evs, Inl e)
              | (evs, Inr (new', list_counts')) \<Rightarrow>
                  (evs, Inr (new', existing_lists, list_counts')))
           else ([], Inr (new_entries, existing_lists, list_counts))))"

subsection \<open>Every pass makes progress\<close>

lemma set_list_of_set [simp]: "set (list_of_set h s) = set s"
  by (simp add: list_of_set_def)

lemma length_list_of_set: "distinct s \<Longrightarrow> length (list_of_set h s) = length s"
  by (simp add: list_of_set_def)

lemma distinct_list_of_set [simp]: "distinct (list_of_set h s)"
  by (simp add: list_of_set_def)

lemma list_of_set_Nil [simp]: "list_of_set h s = [] \<longleftrightarrow> s = []"
  using set_list_of_set [of h s] by (metis set_empty)

lemma length_minus_names_less:
  assumes "x \<in> set to_add" and "x \<in> set s"
  shows "length (minus_names s to_add) < length s"
proof -
  have "length (filter (\<lambda>n. n \<notin> set to_add) s) < length s"
    using assms by (intro length_filter_less [of x]) auto
  then show ?thesis by (simp add: minus_names_def)
qed

lemma take_nonempty_hd: "xs \<noteq> [] \<Longrightarrow> 0 < n \<Longrightarrow> hd xs \<in> set (take n xs)"
  by (cases xs; cases n) auto

lemma try_item_Added_less:
  assumes "try_item h new_entries item test_mode = Added evs item' new'"
  shows "length new' < length new_entries"
proof -
  from assms obtain es where es: "entities item = Some es" "length es < 50"
    by (auto simp: try_item_def split: option.splits if_splits)
  define cand where "cand = list_of_set h (minus_entities new_entries (current_entities item))"
  from assms es have ne: "cand \<noteq> []"
    and new': "new' = minus_names new_entries (take (50 - length es) cand)"
    by (auto simp: try_item_def Let_def cand_def split: option.splits if_splits)
  have "hd cand \<in> set (take (50 - length es) cand)"
    using ne es by (intro take_nonempty_hd) auto
  moreover have "hd cand \<in> set new_entries"
  proof -
    have "hd cand \<in> set cand" using ne by simp
    then show ?thesis by (auto simp: cand_def minus_entities_def)
  qed
  ultimately show ?thesis unfolding new' by (rule length_minus_names_less)
qed

lemma scan_existing_Some_less:
  "scan_existing h new_entries existing test_mode = Inr (Some (evs, existing', new'))
     \<Longrightarrow> length new' < length new_entries"
proof (induction existing arbitrary: existing')
  case Nil
  then show ?case by simp
next
  case (Cons item rest)
  show ?case
  proof (cases "try_item h new_entries item test_mode")
    case Skip
    with Cons.prems obtain rest' where
      "scan_existing h new_entries rest test_mode = Inr (Some (evs, rest', new'))"
      by (auto split: sum.splits option.splits)
    then show ?thesis by (rule Cons.IH)
  next
    case (Raise e)
    with Cons.prems show ?thesis by simp
  next
    case (Added evs0 item0 new0)
    with Cons.prems have "new0 = new'" by simp
    with Added show ?thesis by (auto dest: try_item_Added_less)
  qed
qed

lemma create_new_feedly_list_less:
  assumes "create_new_feedly_list h new_entries object_type list_counts test_mode
             = (evs, Inr (new', list_counts'))"
    and "new_entries \<noteq> []"
  shows "length new' < length new_entries"
proof -
  define cand where "cand = list_of_set h new_entries"
  from assms have new': "new' = minus_names new_entries (take 50 cand)"
    by (auto simp: create_new_feedly_list_def Let_def cand_def split: option.splits)
  have ne: "cand \<noteq> []" using assms(2) by (simp add: cand_def)
  then have "hd cand \<in> set (take 50 cand)" by (intro take_nonempty_hd) auto
  moreover have "hd cand \<in> set new_entries"
    using ne hd_in_set [of cand] by (simp add: cand_def)
  ultimately show ?thesis unfolding new' by (rule length_minus_names_less)
qed

lemma while_body_less:
  assumes "while_body h new_entries existing object_type list_counts test_mode
             = (evs, Inr (new', existing', list_counts'))"
    and "new_entries \<noteq> []"
  shows "length new' < length new_entries"
  using assms
  by (auto simp: while_body_def split: sum.splits option.splits prod.splits
        dest: scan_existing_Some_less create_new_feedly_list_less)

text \<open>
  The loop \<open>while new_entries:\<close> (line 250). It returns the events emitted, and either
  the exception that left the loop or the lists and the counts as the loop leaves them.
\<close>

function add_entries_to_feedly ::
  "(string \<Rightarrow> nat) \<Rightarrow> string list \<Rightarrow> feedly_item list \<Rightarrow> string \<Rightarrow> (string \<rightharpoonup> nat) \<Rightarrow> bool
     \<Rightarrow> (feedly_item list \<times> (string \<rightharpoonup> nat)) result" where
  "add_entries_to_feedly h new_entries existing_lists object_type list_counts test_mode =
     (if new_entries = [] then ([], Inr (existing_lists, list_counts))
      else
        (case while_body h new_entries existing_lists object_type list_counts test_mode of
           (evs, Inl e) \<Rightarrow> (evs, Inl e)
         | (evs, Inr (new', existing', list_counts')) \<Rightarrow>
             (case add_entries_to_feedly h new' existing' object_type list_counts' test_mode of
                (evs', r) \<Rightarrow> (evs @ evs', r))))"
  by pat_completeness auto
termination
  by (relation "measure (\<lambda>(h, new_entries, rest). length new_entries)")
     (auto dest: while_body_less [OF sym])

declare add_entries_to_feedly.simps [simp del]

section \<open>\<open>sync_to_feedly\<close> (lines 163-225)\<close>

text \<open>
  The keys of the dict \<open>feedly_entities\<close> (lines 182-185), in the order of the
  snapshot; \<open>item["label"]\<close> raises KeyError for the first record with no label. The
  dict keeps one entry per label, which \<open>remdups\<close> does below.
\<close>

fun feedly_entities_keys :: "feedly_item list \<Rightarrow> error + string list" where
  "feedly_entities_keys [] = Inr []"
| "feedly_entities_keys (item # rest) =
     (case label item of
        None \<Rightarrow> Inl (KeyError ''label'')
      | Some l \<Rightarrow>
          (case feedly_entities_keys rest of
             Inl e \<Rightarrow> Inl e
           | Inr ls \<Rightarrow> Inr (l # ls)))"

text \<open>
  \<open>jira_data\<close> is a dict, iterated in insertion order: a list of pairs whose keys are
  distinct. \<open>list_counts\<close> (lines 188-193) maps each of its keys to the number of keys
  of \<open>feedly_entities\<close> that start with it.
\<close>

definition count_lists :: "string list \<Rightarrow> string \<Rightarrow> nat" where
  "count_lists ls object_type = length (filter (\<lambda>l. startswith l object_type) (remdups ls))"

definition list_counts_init ::
  "(string \<times> string list) list \<Rightarrow> string list \<Rightarrow> (string \<rightharpoonup> nat)" where
  "list_counts_init jira_data ls =
     map_of (map (\<lambda>(object_type, names). (object_type, count_lists ls object_type)) jira_data)"

text \<open>\<open>item["label"].startswith(object_type)\<close>, for a record that has a label.\<close>

definition belongs :: "string \<Rightarrow> feedly_item \<Rightarrow> bool" where
  "belongs object_type item =
     (case label item of None \<Rightarrow> False | Some l \<Rightarrow> startswith l object_type)"

text \<open>
  \<open>existing_lists\<close> (lines 200-202) holds references to the very dicts of
  \<open>feedly_data\<close>, so that the in-place \<open>extend\<close> of line 263 is seen by the types
  processed later. Here the lists are values: \<open>put_back\<close> writes the lists that
  \<open>_add_entries_to_feedly\<close> leaves back to the places they were selected from.
\<close>

fun put_back :: "('a \<Rightarrow> bool) \<Rightarrow> 'a list \<Rightarrow> 'a list \<Rightarrow> 'a list" where
  "put_back P [] ys = []"
| "put_back P (x # xs) ys =
     (if P x then (case ys of [] \<Rightarrow> x # put_back P xs [] | y # ys' \<Rightarrow> y # put_back P xs ys')
      else x # put_back P xs ys)"

text \<open>\<open>new_entries = set(names)\<close> and the loop of lines 205-209.\<close>

definition missing_entries :: "string list \<Rightarrow> feedly_item list \<Rightarrow> string list" where
  "missing_entries names existing_lists =
     foldl (\<lambda>new_entries item. minus_entities new_entries (current_entities item))
       (remdups names) existing_lists"

text \<open>
  The body of \<open>for object_type, names in jira_data.items()\<close> (lines 196-220). The
  comprehension of line 201 subscripts \<open>item["label"]\<close> for every record of the
  snapshot.
\<close>

definition sync_type ::
  "(string \<Rightarrow> nat) \<Rightarrow> string \<Rightarrow> string list \<Rightarrow> feedly_item list \<Rightarrow> (string \<rightharpoonup> nat) \<Rightarrow> bool
     \<Rightarrow> (feedly_item list \<times> (string \<rightharpoonup> nat)) result" where
  "sync_type h object_type names feedly_data list_counts test_mode =
     (case feedly_entities_keys feedly_data of
        Inl e \<Rightarrow> ([], Inl e)
      | Inr ls \<Rightarrow>
          (let existing_lists = filter (belongs object_type) feedly_data;
               new_entries = missing_entries names existing_lists
           in case add_entries_to_feedly h new_entries existing_lists object_type
                     list_counts test_mode of
                (evs, Inl e) \<Rightarrow> (evs, Inl e)
              | (evs, Inr (existing', list_counts')) \<Rightarrow>
                  (evs, Inr (put_back (belongs object_type) feedly_data existing',
                             list_counts'))))"

fun sync_loop ::
  "(string \<Rightarrow> nat) \<Rightarrow> (string \<times> string list) list \<Rightarrow> feedly_item list \<Rightarrow> (string \<rightharpoonup> nat)
     \<Rightarrow> bool \<Rightarrow> (feedly_item list) result" where
  "sync_loop h [] feedly_data list_counts test_mode = ([], Inr feedly_data)"
| "sync_loop h ((object_type, names) # rest) feedly_data list_counts test_mode =
     (case sync_type h object_type names feedly_data list_counts test_mode of
        (evs, Inl e) \<Rightarrow> (evs, Inl e)
      | (evs, Inr (feedly_data', list_counts')) \<Rightarrow>
          (case sync_loop h rest feedly_data' list_counts' test_mode of
             (evs', r) \<Rightarrow> (evs @ evs', r)))"

text \<open>
  \<open>sync_to_feedly\<close>: the events it causes, and either the exception that the handlers
  of lines 222-225 caught and logged (nothing runs after it) or the snapshot as the
  in-place updates leave it.
\<close>

definition sync_to_feedly ::
  "(string \<Rightarrow> nat) \<Rightarrow> (string \<times> string list) list \<Rightarrow> feedly_item list \<Rightarrow> bool
     \<Rightarrow> (feedly_item list) result" where
  "sync_to_feedly h jira_data feedly_data test_mode =
     (case feedly_entities_keys feedly_data of
        Inl e \<Rightarrow> ([], Inl e)
      | Inr ls \<Rightarrow>
          sync_loop h jira_data feedly_data (list_counts_init jira_data ls) test_mode)"

section \<open>Reading the events\<close>

text \<open>
  The payloads of the update requests (PUT, sent or rendered) and of the create
  requests (POST, sent or rendered) among a sequence of events.
\<close>

fun update_of :: "event \<Rightarrow> payload list" where
  "update_of (Log_PUT p) = [p]"
| "update_of (PUT p) = [p]"
| "update_of _ = []"

fun create_of :: "event \<Rightarrow> payload list" where
  "create_of (Log_POST p) = [p]"
| "create_of (POST p) = [p]"
| "create_of _ = []"

definition updates :: "event list \<Rightarrow> payload list" where
  "updates evs = concat (map update_of evs)"

definition creates :: "event list \<Rightarrow> payload list" where
  "creates evs = concat (map create_of evs)"

definition intents :: "event list \<Rightarrow> payload list" where
  "intents evs = concat (map (\<lambda>e. update_of e @ create_of e) evs)"

section \<open>From one step to a whole run\<close>

text \<open>
  Every event of a run is emitted by \<open>try_item\<close> or by \<open>_create_new_feedly_list\<close>. A
  property \<open>R\<close> of event sequences that holds for the events of each such step, for the
  empty sequence, and for \<open>a @ b\<close> when it holds for \<open>a\<close> and \<open>b\<close>, holds for the
  whole run; the step may rely on an invariant \<open>I\<close> of the lists that it maintains.
\<close>

lemma in_put_back: "x \<in> set (put_back P xs ys) \<Longrightarrow> x \<in> set xs \<or> x \<in> set ys"
proof (induction xs arbitrary: ys)
  case Nil
  then show ?case by simp
next
  case (Cons a xs)
  note IH = Cons.IH and prems = Cons.prems
  show ?case
  proof (cases "P a")
    case False
    with prems have "x = a \<or> x \<in> set (put_back P xs ys)" by auto
    with IH [of ys] show ?thesis by auto
  next
    case True
    show ?thesis
    proof (cases ys)
      case Nil
      with True prems have "x = a \<or> x \<in> set (put_back P xs [])" by auto
      with IH [of "[]"] show ?thesis by auto
    next
      case (Cons y ys')
      with True prems have "x = y \<or> x \<in> set (put_back P xs ys')" by auto
      with IH [of ys'] Cons show ?thesis by auto
    qed
  qed
qed

lemma scan_existing_lift:
  assumes step: "\<forall>new item evs item' new'. I item \<longrightarrow>
      try_item h new item t = Added evs item' new' \<longrightarrow> R evs \<and> I item'"
    and "\<forall>item\<in>set ex. I item"
    and "scan_existing h new ex t = Inr (Some (evs, ex', new'))"
  shows "R evs \<and> (\<forall>item\<in>set ex'. I item)"
  using assms(2,3)
proof (induction ex arbitrary: ex')
  case Nil
  then show ?case by simp
next
  case (Cons item rest)
  show ?case
  proof (cases "try_item h new item t")
    case Skip
    with Cons.prems obtain rest' where r: "scan_existing h new rest t = Inr (Some (evs, rest', new'))"
      and e: "ex' = item # rest'"
      by (auto split: sum.splits option.splits)
    from Cons.IH [OF _ r] Cons.prems(1) e show ?thesis by auto
  next
    case (Raise e)
    with Cons.prems show ?thesis by simp
  next
    case (Added evs0 item0 new0)
    with Cons.prems have "evs0 = evs" "ex' = item0 # rest" by auto
    moreover from Cons.prems(1) have "I item" by simp
    from step [rule_format, OF this Added] have "R evs0 \<and> I item0" .
    ultimately show ?thesis using Cons.prems(1) by auto
  qed
qed

lemma create_new_feedly_list_Inl:
  "create_new_feedly_list h new T lc t = (evs, Inl e) \<Longrightarrow> evs = []"
  by (auto simp: create_new_feedly_list_def Let_def split: option.splits)

lemma while_body_lift:
  assumes step: "\<forall>new item evs item' new'. I item \<longrightarrow>
      try_item h new item t = Added evs item' new' \<longrightarrow> R evs \<and> I item'"
    and create: "\<forall>new lc evs r. create_new_feedly_list h new T lc t = (evs, Inr r) \<longrightarrow> R evs"
    and nil: "R []"
    and inv: "\<forall>item\<in>set ex. I item"
    and run: "while_body h new ex T lc t = (evs, r)"
  shows "R evs \<and> (\<forall>new' ex' lc'. r = Inr (new', ex', lc') \<longrightarrow> (\<forall>item\<in>set ex'. I item))"
proof (cases "scan_existing h new ex t")
  case (Inl e)
  with run nil show ?thesis by (auto simp: while_body_def)
next
  case (Inr res)
  show ?thesis
  proof (cases res)
    case None
    show ?thesis
    proof (cases "new = []")
      case True
      with Inr None run nil inv show ?thesis by (auto simp: while_body_def)
    next
      case False
      obtain evs0 r0 where c: "create_new_feedly_list h new T lc t = (evs0, r0)" by force
      show ?thesis
      proof (cases r0)
        case (Inl e)
        with c have "evs0 = []" by (auto dest: create_new_feedly_list_Inl)
        with Inr None False c Inl run nil show ?thesis by (auto simp: while_body_def)
      next
        case r0: (Inr st)
        with c create have "R evs0" by blast
        with Inr None False c r0 run inv show ?thesis
          by (auto simp: while_body_def split: prod.splits)
      qed
    qed
  next
    case (Some trip)
    obtain evs0 ex0 new0 where trip: "trip = (evs0, ex0, new0)" by (cases trip)
    from Inr Some trip have "scan_existing h new ex t = Inr (Some (evs0, ex0, new0))" by simp
    from scan_existing_lift [OF step inv this]
    have "R evs0 \<and> (\<forall>item\<in>set ex0. I item)" .
    with Inr Some trip run show ?thesis by (auto simp: while_body_def)
  qed
qed

lemma add_entries_lift:
  assumes step: "\<forall>new item evs item' new'. I item \<longrightarrow>
      try_item h new item t = Added evs item' new' \<longrightarrow> R evs \<and> I item'"
    and create: "\<forall>new lc evs r. create_new_feedly_list h new T lc t = (evs, Inr r) \<longrightarrow> R evs"
    and nil: "R []"
    and app: "\<forall>a b. R a \<longrightarrow> R b \<longrightarrow> R (a @ b)"
  shows "(\<forall>item\<in>set ex. I item) \<Longrightarrow> add_entries_to_feedly h new ex T lc t = (evs, r) \<Longrightarrow>
     R evs \<and> (\<forall>ex' lc'. r = Inr (ex', lc') \<longrightarrow> (\<forall>item\<in>set ex'. I item))"
  using step create
proof (induction h new ex T lc t arbitrary: evs r rule: add_entries_to_feedly.induct)
  case (1 h new ex T lc t)
  note step = "1.prems"(3) and create = "1.prems"(4)
  show ?case
  proof (cases "new = []")
    case True
    with "1.prems"(2) have "evs = []" "r = Inr (ex, lc)"
      by (simp_all add: add_entries_to_feedly.simps)
    with "1.prems"(1) nil show ?thesis by simp
  next
    case False
    obtain evs0 r0 where wb: "while_body h new ex T lc t = (evs0, r0)" by force
    note lift = while_body_lift [OF step create nil "1.prems"(1) wb]
    show ?thesis
    proof (cases r0)
      case (Inl e)
      with wb False "1.prems"(2) have "evs = evs0" "r = Inl e"
        by (simp_all add: add_entries_to_feedly.simps)
      with lift show ?thesis by simp
    next
      case (Inr st)
      obtain new' ex' lc' where st: "st = (new', ex', lc')" by (cases st)
      obtain evs1 r1 where rec: "add_entries_to_feedly h new' ex' T lc' t = (evs1, r1)" by force
      from lift Inr st have inv': "\<forall>item\<in>set ex'. I item" and R0: "R evs0" by auto
      have "R evs1 \<and> (\<forall>ex'' lc''. r1 = Inr (ex'', lc'') \<longrightarrow> (\<forall>item\<in>set ex''. I item))"
        using "1.IH" [OF False wb [symmetric] Inr st [symmetric] refl inv' rec step create] .
      moreover from "1.prems"(2) False wb Inr st rec have "evs = evs0 @ evs1" "r = r1"
        by (simp_all add: add_entries_to_feedly.simps)
      ultimately show ?thesis using R0 app by auto
    qed
  qed
qed


lemma sync_type_lift:
  assumes step: "\<forall>new item evs item' new'. I item \<longrightarrow>
      try_item h new item t = Added evs item' new' \<longrightarrow> R evs \<and> I item'"
    and create: "\<forall>new lc evs r. create_new_feedly_list h new T lc t = (evs, Inr r) \<longrightarrow> R evs"
    and nil: "R []"
    and app: "\<forall>a b. R a \<longrightarrow> R b \<longrightarrow> R (a @ b)"
    and inv: "\<forall>item\<in>set fd. I item"
    and run: "sync_type h T names fd lc t = (evs, r)"
  shows "R evs \<and> (\<forall>fd' lc'. r = Inr (fd', lc') \<longrightarrow> (\<forall>item\<in>set fd'. I item))"
proof (cases "feedly_entities_keys fd")
  case (Inl e)
  with run nil show ?thesis by (auto simp: sync_type_def)
next
  case (Inr ls)
  define ex where "ex = filter (belongs T) fd"
  obtain evs0 r0 where a: "add_entries_to_feedly h (missing_entries names ex) ex T lc t = (evs0, r0)"
    by force
  have inv_ex: "\<forall>item\<in>set ex. I item" using inv by (simp add: ex_def)
  note lift = add_entries_lift [OF step create nil app inv_ex a]
  show ?thesis
  proof (cases r0)
    case (Inl e)
    with Inr a run lift show ?thesis by (auto simp: sync_type_def ex_def Let_def)
  next
    case r0: (Inr st)
    obtain ex' lc' where st: "st = (ex', lc')" by (cases st)
    with r0 lift have "\<forall>item\<in>set ex'. I item" by simp
    with inv have "\<forall>item\<in>set (put_back (belongs T) fd ex'). I item"
      by (auto dest: in_put_back)
    with Inr a r0 st run lift show ?thesis by (auto simp: sync_type_def ex_def Let_def)
  qed
qed

lemma sync_loop_lift:
  assumes step: "\<forall>new item evs item' new'. I item \<longrightarrow>
      try_item h new item t = Added evs item' new' \<longrightarrow> R evs \<and> I item'"
    and create: "\<forall>T new lc evs r. create_new_feedly_list h new T lc t = (evs, Inr r) \<longrightarrow> R evs"
    and nil: "R []"
    and app: "\<forall>a b. R a \<longrightarrow> R b \<longrightarrow> R (a @ b)"
  shows "(\<forall>item\<in>set fd. I item) \<Longrightarrow> sync_loop h jira fd lc t = (evs, r) \<Longrightarrow> R evs"
proof (induction jira arbitrary: fd lc evs r)
  case Nil
  with nil show ?case by simp
next
  case (Cons p rest)
  obtain T names where p: "p = (T, names)" by (cases p)
  obtain evs0 r0 where s: "sync_type h T names fd lc t = (evs0, r0)" by force
  from create have create': "\<forall>new lc evs r. create_new_feedly_list h new T lc t = (evs, Inr r) \<longrightarrow> R evs"
    by blast
  note lift = sync_type_lift [OF step create' nil app Cons.prems(1) s]
  show ?case
  proof (cases r0)
    case (Inl e)
    with p s Cons.prems(2) lift show ?thesis by simp
  next
    case (Inr st)
    obtain fd' lc' where st: "st = (fd', lc')" by (cases st)
    obtain evs1 r1 where rec: "sync_loop h rest fd' lc' t = (evs1, r1)" by force
    from lift Inr st have "\<forall>item\<in>set fd'. I item" by simp
    from Cons.IH [OF this rec] have "R evs1" .
    moreover from p s Inr st rec Cons.prems(2) have "evs = evs0 @ evs1" by simp
    ultimately show ?thesis using lift app by simp
  qed
qed

lemma sync_to_feedly_lift:
  assumes step: "\<forall>new item evs item' new'. I item \<longrightarrow>
      try_item h new item t = Added evs item' new' \<longrightarrow> R evs \<and> I item'"
    and create: "\<forall>T new lc evs r. create_new_feedly_list h new T lc t = (evs, Inr r) \<longrightarrow> R evs"
    and nil: "R []"
    and app: "\<forall>a b. R a \<longrightarrow> R b \<longrightarrow> R (a @ b)"
    and inv: "\<forall>item\<in>set fd. I item"
  shows "R (fst (sync_to_feedly h jira fd t))"
proof (cases "feedly_entities_keys fd")
  case (Inl e)
  with nil show ?thesis by (simp add: sync_to_feedly_def)
next
  case (Inr ls)
  obtain evs r where s: "sync_loop h jira fd (list_counts_init jira ls) t = (evs, r)" by force
  from sync_loop_lift [OF step create nil app inv s] Inr s show ?thesis
    by (simp add: sync_to_feedly_def)
qed


section \<open>What a step emits\<close>

lemma intents_append [simp]: "intents (a @ b) = intents a @ intents b"
  by (simp add: intents_def)

lemma updates_append [simp]: "updates (a @ b) = updates a @ updates b"
  by (simp add: updates_def)

lemma creates_append [simp]: "creates (a @ b) = creates a @ creates b"
  by (simp add: creates_def)

lemma intents_Nil [simp]: "intents [] = []" "updates [] = []" "creates [] = []"
  by (simp_all add: intents_def updates_def creates_def)

lemma emit_PUT_payloads [simp]:
  "intents (emit_PUT t pl) = [pl]" "updates (emit_PUT t pl) = [pl]" "creates (emit_PUT t pl) = []"
  by (simp_all add: emit_PUT_def intents_def updates_def creates_def)

lemma emit_POST_payloads [simp]:
  "intents (emit_POST t pl) = [pl]" "updates (emit_POST t pl) = []" "creates (emit_POST t pl) = [pl]"
  by (simp_all add: emit_POST_def intents_def updates_def creates_def)

lemma try_item_Added:
  assumes "try_item h new item t = Added evs item' new'"
  obtains es i l to_add where
    "entities item = Some es" "length es < 50" "item_id item = Some i" "label item = Some l"
    "to_add = take (50 - length es) (list_of_set h (minus_entities new (current_entities item)))"
    "to_add \<noteq> []"
    "item' = item\<lparr>entities := Some (es @ map customKeyword to_add)\<rparr>"
    "new' = minus_names new to_add"
    "evs = emit_PUT t \<lparr>p_id = Some i, p_label = l,
                        p_entities = es @ map customKeyword to_add, p_type = ''customTopic''\<rparr>"
proof -
  from assms obtain es where es: "entities item = Some es" "length es < 50"
    by (auto simp: try_item_def split: option.splits if_splits)
  define cand where "cand = list_of_set h (minus_entities new (current_entities item))"
  from assms es have ne: "cand \<noteq> []"
    by (auto simp: try_item_def Let_def cand_def split: option.splits if_splits)
  from assms es ne obtain i l where il: "item_id item = Some i" "label item = Some l"
    by (auto simp: try_item_def Let_def cand_def split: option.splits if_splits)
  from es have "take (50 - length es) cand \<noteq> []" using ne by (cases cand) auto
  moreover from assms es ne il
  have "item' = item\<lparr>entities := Some (es @ map customKeyword (take (50 - length es) cand))\<rparr>"
    "new' = minus_names new (take (50 - length es) cand)"
    "evs = emit_PUT t \<lparr>p_id = Some i, p_label = l,
                       p_entities = es @ map customKeyword (take (50 - length es) cand),
                       p_type = ''customTopic''\<rparr>"
    by (auto simp: try_item_def Let_def cand_def split: option.splits if_splits)
  ultimately show thesis using that [OF es il] cand_def by blast
qed

lemma create_new_feedly_list_Inr:
  assumes "create_new_feedly_list h new T lc t = (evs, Inr (new', lc'))"
  obtains c to_add where
    "lc T = Some c" "lc' = lc(T \<mapsto> c + 1)"
    "to_add = take 50 (list_of_set h new)"
    "new' = minus_names new to_add"
    "evs = emit_POST t \<lparr>p_id = None, p_label = T @ ''-'' @ str_nat (c + 1),
                       p_entities = map customKeyword to_add, p_type = ''customTopic''\<rparr>"
  using assms by (auto simp: create_new_feedly_list_def Let_def split: option.splits)

section \<open>Capacity\<close>

lemma capacity_step:
  assumes "try_item h new item t = Added evs item' new'"
  shows "\<forall>p\<in>set (intents evs). length (p_entities p) \<le> 50"
  using assms by (elim try_item_Added) simp

lemma capacity_create:
  assumes "create_new_feedly_list h new T lc t = (evs, Inr r)"
  shows "\<forall>p\<in>set (intents evs). length (p_entities p) \<le> 50"
  using assms by (cases r) (auto elim!: create_new_feedly_list_Inr)

text \<open>
  Claim C1. Every payload that \<open>sync_to_feedly\<close> emits, for an update (PUT) or for a
  create (POST), sent or rendered, carries at most 50 entities. This holds for every
  \<open>jira_data\<close> and every snapshot, also one with records of more than 50 entities
  (such a record is never updated) and also for a run that an exception cuts short.
\<close>

theorem capacity_invariant:
  "\<forall>p \<in> set (intents (fst (sync_to_feedly h jira_data feedly_data test_mode))).
     length (p_entities p) \<le> 50"
proof (rule sync_to_feedly_lift [where I = "\<lambda>_. True"
        and R = "\<lambda>evs. \<forall>p\<in>set (intents evs). length (p_entities p) \<le> 50"])
  show "\<forall>new item evs item' new'. True \<longrightarrow>
      try_item h new item test_mode = Added evs item' new' \<longrightarrow>
      (\<forall>p\<in>set (intents evs). length (p_entities p) \<le> 50) \<and> True"
    using capacity_step by blast
  show "\<forall>T new lc evs r. create_new_feedly_list h new T lc test_mode = (evs, Inr r) \<longrightarrow>
      (\<forall>p\<in>set (intents evs). length (p_entities p) \<le> 50)"
    using capacity_create by blast
qed auto


theorem capacity_invariant_witness:
  "map (\<lambda>p. length (p_entities p))
     (intents (fst (sync_to_feedly (\<lambda>_. 0) [(''Server'', [''web-1'']), (''Asset'', [''db-1''])]
        [\<lparr>item_id = Some ''a1'', label = Some ''Server-1'',
          entities = Some [customKeyword ''web-0'']\<rparr>] True))) = [2, 1]
   \<and> list_all (\<lambda>p. length (p_entities p) \<le> 50)
     (intents (fst (sync_to_feedly (\<lambda>_. 0) [(''Server'', [''web-1'']), (''Asset'', [''db-1''])]
        [\<lparr>item_id = Some ''a1'', label = Some ''Server-1'',
          entities = Some [customKeyword ''web-0'']\<rparr>] True)))"
proof
  show "map (\<lambda>p. length (p_entities p))
     (intents (fst (sync_to_feedly (\<lambda>_. 0) [(''Server'', [''web-1'']), (''Asset'', [''db-1''])]
        [\<lparr>item_id = Some ''a1'', label = Some ''Server-1'',
          entities = Some [customKeyword ''web-0'']\<rparr>] True))) = [2, 1]"
    by code_simp
  show "list_all (\<lambda>p. length (p_entities p) \<le> 50)
     (intents (fst (sync_to_feedly (\<lambda>_. 0) [(''Server'', [''web-1'']), (''Asset'', [''db-1''])]
        [\<lparr>item_id = Some ''a1'', label = Some ''Server-1'',
          entities = Some [customKeyword ''web-0'']\<rparr>] True)))"
    using capacity_invariant [of "\<lambda>_. 0" "[(''Server'', [''web-1'']), (''Asset'', [''db-1''])]"
        "[\<lparr>item_id = Some ''a1'', label = Some ''Server-1'',
          entities = Some [customKeyword ''web-0'']\<rparr>]" True]
    by (simp only: list_all_iff)
qed

section \<open>Dry run and pacing\<close>

text \<open>
  In test mode every event is a rendered payload. Otherwise the events are a sequence
  of requests, each one followed at once by a sleep of one second.
\<close>

fun rendered :: "event \<Rightarrow> bool" where
  "rendered (Log_PUT p) = True"
| "rendered (Log_POST p) = True"
| "rendered _ = False"

fun paced :: "event list \<Rightarrow> bool" where
  "paced [] = True"
| "paced (PUT p # Sleep n # evs) = (n = 1 \<and> paced evs)"
| "paced (POST p # Sleep n # evs) = (n = 1 \<and> paced evs)"
| "paced _ = False"

definition dispatch_ok :: "bool \<Rightarrow> event list \<Rightarrow> bool" where
  "dispatch_ok test_mode evs = (if test_mode then list_all rendered evs else paced evs)"

lemma paced_append: "paced a \<Longrightarrow> paced b \<Longrightarrow> paced (a @ b)"
  by (induction a rule: paced.induct) auto

lemma dispatch_ok_append: "dispatch_ok t a \<Longrightarrow> dispatch_ok t b \<Longrightarrow> dispatch_ok t (a @ b)"
  by (auto simp: dispatch_ok_def paced_append)

lemma dispatch_ok_emit [simp]: "dispatch_ok t (emit_PUT t pl)" "dispatch_ok t (emit_POST t pl)"
  by (simp_all add: dispatch_ok_def emit_PUT_def emit_POST_def)

lemma sync_to_feedly_dispatch_ok:
  "dispatch_ok test_mode (fst (sync_to_feedly h jira_data feedly_data test_mode))"
proof (rule sync_to_feedly_lift [where I = "\<lambda>_. True" and R = "dispatch_ok test_mode"])
  show "\<forall>new item evs item' new'. True \<longrightarrow>
      try_item h new item test_mode = Added evs item' new' \<longrightarrow>
      dispatch_ok test_mode evs \<and> True"
    by (auto elim!: try_item_Added)
  show "\<forall>T new lc evs r. create_new_feedly_list h new T lc test_mode = (evs, Inr r) \<longrightarrow>
      dispatch_ok test_mode evs"
    by (auto elim!: create_new_feedly_list_Inr)
  show "dispatch_ok test_mode []" by (simp add: dispatch_ok_def)
  show "\<forall>a b. dispatch_ok test_mode a \<longrightarrow> dispatch_ok test_mode b \<longrightarrow> dispatch_ok test_mode (a @ b)"
    by (simp add: dispatch_ok_append)
qed simp


section \<open>No duplicate entries\<close>

definition texts_distinct :: "entity list \<Rightarrow> bool" where
  "texts_distinct es = distinct (map etext es)"

lemma map_etext_customKeyword: "map etext (map customKeyword ns) = map Some ns"
  by (induction ns) (simp_all add: customKeyword_def)

lemma distinct_map_Some: "distinct (map Some ns) = distinct ns"
  by (simp add: distinct_map)

lemma texts_distinct_extend:
  assumes "texts_distinct es" and "distinct ns" and "\<forall>n\<in>set ns. Some n \<notin> set (map etext es)"
  shows "texts_distinct (es @ map customKeyword ns)"
proof -
  have "distinct (map etext es @ map Some ns)"
    using assms unfolding texts_distinct_def distinct_append distinct_map_Some by force
  then show ?thesis
    unfolding texts_distinct_def map_append map_etext_customKeyword .
qed

lemma creates_distinct:
  "\<forall>p\<in>set (creates (fst (sync_to_feedly h jira_data feedly_data test_mode))).
           distinct (map etext (p_entities p))"
proof (rule sync_to_feedly_lift [where I = "\<lambda>_. True"
        and R = "\<lambda>evs. \<forall>p\<in>set (creates evs). distinct (map etext (p_entities p))"])
  show "\<forall>new item evs item' new'. True \<longrightarrow>
        try_item h new item test_mode = Added evs item' new' \<longrightarrow>
        (\<forall>p\<in>set (creates evs). distinct (map etext (p_entities p))) \<and> True"
    by (auto elim!: try_item_Added)
  show "\<forall>T new lc evs r. create_new_feedly_list h new T lc test_mode = (evs, Inr r) \<longrightarrow>
        (\<forall>p\<in>set (creates evs). distinct (map etext (p_entities p)))"
    by (auto elim!: create_new_feedly_list_Inr
          simp only: emit_POST_payloads payload.simps map_etext_customKeyword distinct_map_Some
            list.set distinct_list_of_set intro!: distinct_take)
qed auto

text \<open>
  A record \<open>item\<close> of the working copy extends the record \<open>orig\<close> of the snapshot: same id,
  same label, and its entities are those of \<open>orig\<close> followed by new keywords, pairwise
  different and not among the texts of \<open>orig\<close>.
\<close>

definition fresh_keywords :: "entity list \<Rightarrow> string list \<Rightarrow> bool" where
  "fresh_keywords es added = (distinct added \<and> (\<forall>n\<in>set added. Some n \<notin> set (map etext es)))"

definition extends :: "feedly_item \<Rightarrow> feedly_item \<Rightarrow> bool" where
  "extends orig item = (item_id orig = item_id item \<and> label orig = label item
      \<and> (case entities orig of
            None \<Rightarrow> entities item = None
          | Some es \<Rightarrow> (\<exists>added. entities item = Some (es @ map customKeyword added)
                \<and> fresh_keywords es added)))"

definition extension_of :: "feedly_item list \<Rightarrow> payload \<Rightarrow> bool" where
  "extension_of fd p = (\<exists>item\<in>set fd. \<exists>es added.
      item_id item = p_id p \<and> label item = Some (p_label p) \<and> entities item = Some es
      \<and> p_entities p = es @ map customKeyword added \<and> fresh_keywords es added)"

lemma fresh_keywords_Nil: "fresh_keywords es []"
  by (simp add: fresh_keywords_def)

lemma fresh_keywords_append:
  assumes "fresh_keywords es0 added0"
    and "distinct to_add"
    and "\<forall>n\<in>set to_add. Some n \<notin> set (map etext (es0 @ map customKeyword added0))"
  shows "fresh_keywords es0 (added0 @ to_add)"
proof -
  have "set (map etext (es0 @ map customKeyword added0))
      = set (map etext es0) \<union> Some ` set added0"
    unfolding map_append map_etext_customKeyword by simp
  with assms(3) have both: "\<forall>n\<in>set to_add. Some n \<notin> set (map etext es0) \<union> Some ` set added0"
    by (simp only:)
  have f1: "\<forall>n\<in>set to_add. n \<notin> set added0"
  proof
    fix n assume "n \<in> set to_add"
    with both have "Some n \<notin> set (map etext es0) \<union> Some ` set added0" by (rule bspec)
    then show "n \<notin> set added0" by (simp add: image_iff)
  qed
  have f2: "\<forall>n\<in>set to_add. Some n \<notin> set (map etext es0)"
  proof
    fix n assume "n \<in> set to_add"
    with both have "Some n \<notin> set (map etext es0) \<union> Some ` set added0" by (rule bspec)
    then show "Some n \<notin> set (map etext es0)" by simp
  qed
  from assms(1) have d0: "distinct added0" "\<forall>n\<in>set added0. Some n \<notin> set (map etext es0)"
    by (simp_all add: fresh_keywords_def)
  have "distinct (added0 @ to_add)" using d0(1) assms(2) f1 by auto
  moreover have "\<forall>n\<in>set (added0 @ to_add). Some n \<notin> set (map etext es0)"
    using d0(2) f2 by auto
  ultimately show ?thesis unfolding fresh_keywords_def by (rule conjI)
qed

lemma fresh_keywords_distinct:
  assumes "fresh_keywords es added" and "distinct (map etext es)"
  shows "distinct (map etext (es @ map customKeyword added))"
proof -
  from assms(1) have "distinct added" "\<forall>n\<in>set added. Some n \<notin> set (map etext es)"
    by (simp_all add: fresh_keywords_def)
  moreover from assms(2) have "texts_distinct es" by (simp only: texts_distinct_def)
  ultimately have "texts_distinct (es @ map customKeyword added)"
    by (intro texts_distinct_extend)
  then show ?thesis by (simp only: texts_distinct_def)
qed

lemma extends_refl: "extends item item"
proof (cases "entities item")
  case None
  then show ?thesis by (simp add: extends_def)
next
  case (Some es)
  have "entities item = Some (es @ map customKeyword []) \<and> fresh_keywords es []"
    using Some by (simp add: fresh_keywords_Nil)
  then have "\<exists>added. entities item = Some (es @ map customKeyword added) \<and> fresh_keywords es added"
    by (rule exI)
  then show ?thesis by (simp add: extends_def Some)
qed

lemma extends_step:
  assumes ex: "\<exists>orig\<in>set fd. extends orig item"
    and added: "try_item h new item t = Added evs item' new'"
  shows "(\<forall>p\<in>set (updates evs). extension_of fd p) \<and> (\<exists>orig\<in>set fd. extends orig item')"
proof -
  from ex obtain orig where orig: "orig \<in> set fd" "extends orig item" by blast
  from added obtain es i l to_add where
    es: "entities item = Some es" and i: "item_id item = Some i" and l: "label item = Some l"
    and to_add: "to_add = take (50 - length es) (list_of_set h (minus_entities new (current_entities item)))"
    and item': "item' = item\<lparr>entities := Some (es @ map customKeyword to_add)\<rparr>"
    and evs: "evs = emit_PUT t \<lparr>p_id = Some i, p_label = l,
                        p_entities = es @ map customKeyword to_add, p_type = ''customTopic''\<rparr>"
    by (elim try_item_Added)
  from orig(2) i l have o: "item_id orig = Some i" "label orig = Some l"
    by (simp_all add: extends_def)
  obtain es0 where e0: "entities orig = Some es0"
  proof (cases "entities orig")
    case None
    with orig(2) es show ?thesis by (simp add: extends_def)
  next
    case (Some es0)
    then show ?thesis by (rule that)
  qed
  from orig(2) have "\<exists>added. entities item = Some (es0 @ map customKeyword added)
      \<and> fresh_keywords es0 added"
    by (simp add: extends_def e0)
  then obtain added0 where a0: "entities item = Some (es0 @ map customKeyword added0)"
    and f0: "fresh_keywords es0 added0"
    by (elim exE conjE)
  from a0 es have es0: "es = es0 @ map customKeyword added0" by simp
  have dt: "distinct to_add" unfolding to_add by (rule distinct_take) simp
  have fresh: "\<forall>n\<in>set to_add. Some n \<notin> set (map etext es)"
  proof
    fix n assume "n \<in> set to_add"
    then have "n \<in> set (list_of_set h (minus_entities new (current_entities item)))"
      unfolding to_add by (rule in_set_takeD)
    then show "Some n \<notin> set (map etext es)"
      using es by (simp add: minus_entities_def current_entities_def)
  qed
  have f: "fresh_keywords es0 (added0 @ to_add)"
    using f0 dt fresh unfolding es0 by (rule fresh_keywords_append)
  have shape: "es @ map customKeyword to_add = es0 @ map customKeyword (added0 @ to_add)"
    by (simp add: es0)
  let ?p = "\<lparr>p_id = Some i, p_label = l,
        p_entities = es @ map customKeyword to_add, p_type = ''customTopic''\<rparr>"
  have "item_id orig = p_id ?p \<and> label orig = Some (p_label ?p) \<and> entities orig = Some es0
      \<and> p_entities ?p = es0 @ map customKeyword (added0 @ to_add)
      \<and> fresh_keywords es0 (added0 @ to_add)"
    using o e0 shape f by simp
  then have "\<exists>es added. item_id orig = p_id ?p \<and> label orig = Some (p_label ?p)
      \<and> entities orig = Some es
      \<and> p_entities ?p = es @ map customKeyword added \<and> fresh_keywords es added"
    by (intro exI)
  then have p: "extension_of fd ?p"
    unfolding extension_of_def by (rule bexI [where x = orig]) (rule orig(1))
  have "entities item' = Some (es0 @ map customKeyword (added0 @ to_add))
      \<and> fresh_keywords es0 (added0 @ to_add)"
    using shape f by (simp add: item')
  then have "\<exists>added. entities item' = Some (es0 @ map customKeyword added)
      \<and> fresh_keywords es0 added"
    by (rule exI)
  moreover have "item_id orig = item_id item'" "label orig = label item'"
    using o i l by (simp_all add: item')
  ultimately have "extends orig item'" by (simp add: extends_def e0)
  then have "\<exists>orig\<in>set fd. extends orig item'"
    by (rule bexI [where x = orig]) (rule orig(1))
  moreover from p have "\<forall>p\<in>set (updates evs). extension_of fd p" by (simp add: evs)
  ultimately show ?thesis by (intro conjI)
qed

lemma updates_extend:
  "\<forall>p\<in>set (updates (fst (sync_to_feedly h jira_data feedly_data test_mode))).
     extension_of feedly_data p"
proof (rule sync_to_feedly_lift [where I = "\<lambda>item. \<exists>orig\<in>set feedly_data. extends orig item"
      and R = "\<lambda>evs. \<forall>p\<in>set (updates evs). extension_of feedly_data p"])
  show "\<forall>new item evs item' new'. (\<exists>orig\<in>set feedly_data. extends orig item) \<longrightarrow>
      try_item h new item test_mode = Added evs item' new' \<longrightarrow>
      (\<forall>p\<in>set (updates evs). extension_of feedly_data p)
      \<and> (\<exists>orig\<in>set feedly_data. extends orig item')"
    by (intro allI impI) (rule extends_step)
  show "\<forall>T new lc evs r. create_new_feedly_list h new T lc test_mode = (evs, Inr r) \<longrightarrow>
      (\<forall>p\<in>set (updates evs). extension_of feedly_data p)"
    by (auto elim!: create_new_feedly_list_Inr)
  show "\<forall>item\<in>set feedly_data. \<exists>orig\<in>set feedly_data. extends orig item"
    using extends_refl by blast
  show "\<forall>p\<in>set (updates []). extension_of feedly_data p" by simp
  show "\<forall>a b. (\<forall>p\<in>set (updates a). extension_of feedly_data p) \<longrightarrow>
      (\<forall>p\<in>set (updates b). extension_of feedly_data p) \<longrightarrow>
      (\<forall>p\<in>set (updates (a @ b)). extension_of feedly_data p)"
    by auto
qed

text \<open>
  Claim C8. The entities of every create payload that \<open>sync_to_feedly\<close> emits have
  pairwise distinct texts, for every \<open>jira_data\<close> and every snapshot. Every update payload
  carries the id and the label of a record of the snapshot, and its entities are the
  entities of that record followed by new keywords that are pairwise different and not
  among the texts of that record; so if the texts of that one record are pairwise
  distinct, then so are the texts of the payload. Nothing is asked of the other records
  of the snapshot.
\<close>

theorem no_duplicate_entries:
  "(\<forall>p\<in>set (creates (fst (sync_to_feedly h jira_data feedly_data test_mode))).
       distinct (map etext (p_entities p)))
   \<and> (\<forall>p\<in>set (updates (fst (sync_to_feedly h jira_data feedly_data test_mode))).
       \<exists>item\<in>set feedly_data. \<exists>es added.
          item_id item = p_id p \<and> label item = Some (p_label p) \<and> entities item = Some es
          \<and> p_entities p = es @ map customKeyword added
          \<and> distinct added \<and> (\<forall>n\<in>set added. Some n \<notin> set (map etext es))
          \<and> (distinct (map etext es) \<longrightarrow> distinct (map etext (p_entities p))))"
proof (intro conjI ballI)
  fix p assume "p \<in> set (creates (fst (sync_to_feedly h jira_data feedly_data test_mode)))"
  with creates_distinct [of h jira_data feedly_data test_mode]
  show "distinct (map etext (p_entities p))" by (rule bspec)
next
  fix p assume "p \<in> set (updates (fst (sync_to_feedly h jira_data feedly_data test_mode)))"
  with updates_extend [of h jira_data feedly_data test_mode]
  have "extension_of feedly_data p" by (rule bspec)
  then obtain item es added where item: "item \<in> set feedly_data"
    and same: "item_id item = p_id p" "label item = Some (p_label p)" "entities item = Some es"
    and shape: "p_entities p = es @ map customKeyword added"
    and fresh: "fresh_keywords es added"
    unfolding extension_of_def by (elim bexE exE conjE)
  have imp: "distinct (map etext es) \<longrightarrow> distinct (map etext (p_entities p))"
    unfolding shape using fresh by (intro impI) (rule fresh_keywords_distinct)
  from fresh have d: "distinct added" and f: "\<forall>n\<in>set added. Some n \<notin> set (map etext es)"
    by (simp_all add: fresh_keywords_def)
  have "item_id item = p_id p \<and> label item = Some (p_label p) \<and> entities item = Some es
          \<and> p_entities p = es @ map customKeyword added
          \<and> distinct added \<and> (\<forall>n\<in>set added. Some n \<notin> set (map etext es))
          \<and> (distinct (map etext es) \<longrightarrow> distinct (map etext (p_entities p)))"
    using same shape d f imp by (intro conjI)
  then have "\<exists>es added. item_id item = p_id p \<and> label item = Some (p_label p)
          \<and> entities item = Some es
          \<and> p_entities p = es @ map customKeyword added
          \<and> distinct added \<and> (\<forall>n\<in>set added. Some n \<notin> set (map etext es))
          \<and> (distinct (map etext es) \<longrightarrow> distinct (map etext (p_entities p)))"
    by (intro exI)
  then show "\<exists>item\<in>set feedly_data. \<exists>es added.
          item_id item = p_id p \<and> label item = Some (p_label p) \<and> entities item = Some es
          \<and> p_entities p = es @ map customKeyword added
          \<and> distinct added \<and> (\<forall>n\<in>set added. Some n \<notin> set (map etext es))
          \<and> (distinct (map etext es) \<longrightarrow> distinct (map etext (p_entities p)))"
    by (rule bexI [where x = item]) (rule item)
qed

theorem no_duplicate_entries_witness:
  "updates (fst (sync_to_feedly (\<lambda>_. 0) [(''Server'', [''z''])]
        [\<lparr>item_id = Some ''o1'', label = Some ''Other-1'',
           entities = Some [customKeyword ''x'', customKeyword ''x'']\<rparr>,
         \<lparr>item_id = Some ''s1'', label = Some ''Server-1'',
           entities = Some [customKeyword ''y'']\<rparr>] True))
    = [\<lparr>p_id = Some ''s1'', p_label = ''Server-1'',
         p_entities = [customKeyword ''y'', customKeyword ''z''], p_type = ''customTopic''\<rparr>]
   \<and> \<not> distinct (map etext [customKeyword ''x'', customKeyword ''x''])
   \<and> distinct (map etext [customKeyword ''y''])
   \<and> list_all (\<lambda>p. distinct (map etext (p_entities p)))
       (updates (fst (sync_to_feedly (\<lambda>_. 0) [(''Server'', [''z''])]
        [\<lparr>item_id = Some ''o1'', label = Some ''Other-1'',
           entities = Some [customKeyword ''x'', customKeyword ''x'']\<rparr>,
         \<lparr>item_id = Some ''s1'', label = Some ''Server-1'',
           entities = Some [customKeyword ''y'']\<rparr>] True)))"
proof -
  have run: "updates (fst (sync_to_feedly (\<lambda>_. 0) [(''Server'', [''z''])]
        [\<lparr>item_id = Some ''o1'', label = Some ''Other-1'',
           entities = Some [customKeyword ''x'', customKeyword ''x'']\<rparr>,
         \<lparr>item_id = Some ''s1'', label = Some ''Server-1'',
           entities = Some [customKeyword ''y'']\<rparr>] True))
    = [\<lparr>p_id = Some ''s1'', p_label = ''Server-1'',
         p_entities = [customKeyword ''y'', customKeyword ''z''], p_type = ''customTopic''\<rparr>]"
    by code_simp
  have dirty: "\<not> distinct (map etext [customKeyword ''x'', customKeyword ''x''])"
    by (simp add: customKeyword_def)
  have clean: "distinct (map etext [customKeyword ''y''])"
    by simp
  from no_duplicate_entries [of "\<lambda>_. 0" "[(''Server'', [''z''])]"
        "[\<lparr>item_id = Some ''o1'', label = Some ''Other-1'',
           entities = Some [customKeyword ''x'', customKeyword ''x'']\<rparr>,
         \<lparr>item_id = Some ''s1'', label = Some ''Server-1'',
           entities = Some [customKeyword ''y'']\<rparr>]" True]
  have "list_all (\<lambda>p. distinct (map etext (p_entities p)))
       (updates (fst (sync_to_feedly (\<lambda>_. 0) [(''Server'', [''z''])]
        [\<lparr>item_id = Some ''o1'', label = Some ''Other-1'',
           entities = Some [customKeyword ''x'', customKeyword ''x'']\<rparr>,
         \<lparr>item_id = Some ''s1'', label = Some ''Server-1'',
           entities = Some [customKeyword ''y'']\<rparr>] True)))"
    unfolding run by (auto simp: customKeyword_def)
  with run dirty clean show ?thesis by blast
qed

section \<open>The shape of a scan\<close>

lemma scan_existing_Some:
  assumes "scan_existing h new ex t = Inr (Some (evs, ex', new'))"
  shows "\<exists>pre item post item'. ex = pre @ item # post \<and> ex' = pre @ item' # post
           \<and> (\<forall>x\<in>set pre. try_item h new x t = Skip)
           \<and> try_item h new item t = Added evs item' new'"
  using assms
proof (induction ex arbitrary: ex')
  case Nil
  then show ?case by simp
next
  case (Cons a rest)
  show ?case
  proof (cases "try_item h new a t")
    case Skip
    with Cons.prems obtain rest' where r: "scan_existing h new rest t = Inr (Some (evs, rest', new'))"
      and e: "ex' = a # rest'"
      by (auto split: sum.splits option.splits)
    from Cons.IH [OF r] obtain pre item post item' where
      *: "rest = pre @ item # post" "rest' = pre @ item' # post"
         "\<forall>x\<in>set pre. try_item h new x t = Skip" "try_item h new item t = Added evs item' new'"
      by blast
    have "a # rest = (a # pre) @ item # post" "ex' = (a # pre) @ item' # post"
      "\<forall>x\<in>set (a # pre). try_item h new x t = Skip"
      using * e Skip by auto
    with *(4) show ?thesis by blast
  next
    case (Raise e)
    with Cons.prems show ?thesis by simp
  next
    case (Added evs0 item0 new0)
    with Cons.prems have "evs0 = evs" "ex' = item0 # rest" "new0 = new'" by auto
    with Added have "a # rest = [] @ a # rest" "ex' = [] @ item0 # rest"
      "\<forall>x\<in>set []. try_item h new x t = Skip" "try_item h new a t = Added evs item0 new'"
      by auto
    then show ?thesis by blast
  qed
qed

lemma scan_existing_None:
  "scan_existing h new ex t = Inr None \<Longrightarrow> \<forall>x\<in>set ex. try_item h new x t = Skip"
proof (induction ex)
  case Nil
  then show ?case by simp
next
  case (Cons a rest)
  then show ?case
    by (cases "try_item h new a t") (auto split: sum.splits option.splits)
qed

lemma scan_existing_all_Skip:
  "\<forall>x\<in>set ex. try_item h new x t = Skip \<Longrightarrow> scan_existing h new ex t = Inr None"
  by (induction ex) auto

lemma set_minus_names [simp]: "set (minus_names s to_add) = set s - set to_add"
  by (auto simp: minus_names_def)

lemma set_minus_entities [simp]: "set (minus_entities s cur) = {n \<in> set s. Some n \<notin> cur}"
  by (auto simp: minus_entities_def)


lemma create_psubset:
  assumes "create_new_feedly_list h new T lc t = (evs, Inr (new', lc'))" and "new \<noteq> []"
  shows "set new' \<subset> set new"
proof -
  from assms(1) obtain to_add where
    to_add: "to_add = take 50 (list_of_set h new)" and new': "new' = minus_names new to_add"
    by (elim create_new_feedly_list_Inr)
  have "set to_add \<subseteq> set new"
  proof
    fix n assume "n \<in> set to_add"
    then have "n \<in> set (list_of_set h new)" unfolding to_add by (rule in_set_takeD)
    then show "n \<in> set new" by simp
  qed
  moreover have "to_add \<noteq> []" using assms(2) unfolding to_add
    by (cases "list_of_set h new") auto
  then obtain n where "n \<in> set to_add" by (cases to_add) auto
  ultimately show ?thesis unfolding new' by auto
qed

text \<open>The three ways in which one pass of the loop body can end.\<close>

lemma while_body_cases:
  assumes "while_body h new ex T lc t = (evs, r)" and "new \<noteq> []"
  obtains
    (raise) e where "r = Inl e" "evs = []"
  | (update) pre item post item' new' where
      "r = Inr (new', pre @ item' # post, lc)" "ex = pre @ item # post"
      "\<forall>x\<in>set pre. try_item h new x t = Skip" "try_item h new item t = Added evs item' new'"
  | (create) new' lc' where
      "r = Inr (new', ex, lc')" "\<forall>x\<in>set ex. try_item h new x t = Skip"
      "create_new_feedly_list h new T lc t = (evs, Inr (new', lc'))"
proof (cases "scan_existing h new ex t")
  case (Inl e)
  with assms(1) have "r = Inl e" "evs = []" by (auto simp: while_body_def)
  then show thesis by (rule raise)
next
  case (Inr res)
  show thesis
  proof (cases res)
    case None
    note skip = scan_existing_None [OF Inr [unfolded None]]
    obtain evs0 r0 where c: "create_new_feedly_list h new T lc t = (evs0, r0)" by force
    show thesis
    proof (cases r0)
      case (Inl e)
      with c have "evs0 = []" by (auto dest: create_new_feedly_list_Inl)
      with Inr None c Inl assms have "r = Inl e" "evs = []" by (auto simp: while_body_def)
      then show thesis by (rule raise)
    next
      case r0: (Inr st)
      obtain new' lc' where st: "st = (new', lc')" by (cases st)
      with Inr None c r0 assms have "r = Inr (new', ex, lc')" "evs = evs0"
        by (auto simp: while_body_def)
      with skip c r0 st show thesis by (intro create) auto
    qed
  next
    case (Some trip)
    obtain evs0 ex0 new0 where trip: "trip = (evs0, ex0, new0)" by (cases trip)
    with Inr Some have s: "scan_existing h new ex t = Inr (Some (evs0, ex0, new0))" by simp
    from scan_existing_Some [OF s] obtain pre item post item' where
      *: "ex = pre @ item # post" "ex0 = pre @ item' # post"
         "\<forall>x\<in>set pre. try_item h new x t = Skip" "try_item h new item t = Added evs0 item' new0"
      by blast
    from s assms(1) have "r = Inr (new0, ex0, lc)" "evs = evs0" by (auto simp: while_body_def)
    with * show thesis by (intro update) auto
  qed
qed

lemma add_entries_Nil [simp]: "add_entries_to_feedly h [] ex T lc t = ([], Inr (ex, lc))"
  by (simp add: add_entries_to_feedly.simps)

lemma add_entries_step:
  assumes "new \<noteq> []" and "while_body h new ex T lc t = (evs0, r0)"
  shows "add_entries_to_feedly h new ex T lc t =
           (case r0 of Inl e \<Rightarrow> (evs0, Inl e)
            | Inr (new', ex', lc') \<Rightarrow>
                (evs0 @ fst (add_entries_to_feedly h new' ex' T lc' t),
                 snd (add_entries_to_feedly h new' ex' T lc' t)))"
  using assms
  by (subst add_entries_to_feedly.simps) (auto split: sum.splits prod.splits)

section \<open>The dry run against the real run\<close>

text \<open>
  What test mode makes of an event of the real run: a request is rendered instead of
  sent, and the sleep after it does not happen.
\<close>

fun render :: "event \<Rightarrow> event list" where
  "render (PUT p) = [Log_PUT p]"
| "render (POST p) = [Log_POST p]"
| "render (Sleep n) = []"
| "render (Log_PUT p) = [Log_PUT p]"
| "render (Log_POST p) = [Log_POST p]"

definition dry_run :: "event list \<Rightarrow> event list" where
  "dry_run evs = concat (map render evs)"

lemma dry_run_append [simp]: "dry_run (a @ b) = dry_run a @ dry_run b"
  by (simp add: dry_run_def)

lemma dry_run_Nil [simp]: "dry_run [] = []"
  by (simp add: dry_run_def)

lemma dry_run_emit [simp]:
  "dry_run (emit_PUT False pl) = emit_PUT True pl"
  "dry_run (emit_POST False pl) = emit_POST True pl"
  by (simp_all add: dry_run_def emit_PUT_def emit_POST_def)

lemma try_item_dry:
  "try_item h new item True =
     (case try_item h new item False of
        Skip \<Rightarrow> Skip
      | Raise e \<Rightarrow> Raise e
      | Added evs item' new' \<Rightarrow> Added (dry_run evs) item' new')"
  by (simp add: try_item_def Let_def split: option.splits)

lemma scan_existing_dry:
  "scan_existing h new ex True =
     (case scan_existing h new ex False of
        Inl e \<Rightarrow> Inl e
      | Inr None \<Rightarrow> Inr None
      | Inr (Some (evs, ex', new')) \<Rightarrow> Inr (Some (dry_run evs, ex', new')))"
proof (induction ex)
  case Nil
  then show ?case by simp
next
  case (Cons a rest)
  show ?case
  proof (cases "try_item h new a False")
    case Skip
    then have "try_item h new a True = Skip" by (simp add: try_item_dry)
    with Skip Cons.IH show ?thesis by (simp split: sum.splits option.splits)
  next
    case (Raise e)
    then have "try_item h new a True = Raise e" by (simp add: try_item_dry)
    with Raise show ?thesis by simp
  next
    case (Added evs item' new')
    then have "try_item h new a True = Added (dry_run evs) item' new'"
      by (simp add: try_item_dry)
    with Added show ?thesis by simp
  qed
qed

lemma create_dry:
  "create_new_feedly_list h new T lc True =
     (dry_run (fst (create_new_feedly_list h new T lc False)),
      snd (create_new_feedly_list h new T lc False))"
  by (simp add: create_new_feedly_list_def Let_def split: option.splits)

lemma while_body_dry:
  "while_body h new ex T lc True =
     (dry_run (fst (while_body h new ex T lc False)), snd (while_body h new ex T lc False))"
proof (cases "scan_existing h new ex False")
  case (Inl e)
  then show ?thesis by (simp add: while_body_def scan_existing_dry)
next
  case (Inr res)
  show ?thesis
  proof (cases res)
    case None
    obtain evs r where c: "create_new_feedly_list h new T lc False = (evs, r)" by force
    then have "create_new_feedly_list h new T lc True = (dry_run evs, r)"
      by (simp add: create_dry)
    with Inr None c show ?thesis
      by (cases r) (auto simp: while_body_def scan_existing_dry)
  next
    case (Some trip)
    obtain evs ex' new' where "trip = (evs, ex', new')" by (cases trip)
    with Inr Some show ?thesis by (simp add: while_body_def scan_existing_dry)
  qed
qed

lemma add_entries_dry:
  "add_entries_to_feedly h new ex T lc True =
     (dry_run (fst (add_entries_to_feedly h new ex T lc False)),
      snd (add_entries_to_feedly h new ex T lc False))"
proof (induction "length new" arbitrary: new ex lc rule: less_induct)
  case less
  show ?case
  proof (cases "new = []")
    case True
    then show ?thesis by simp
  next
    case False
    obtain evs0 r0 where wb: "while_body h new ex T lc False = (evs0, r0)" by force
    then have wb': "while_body h new ex T lc True = (dry_run evs0, r0)"
      by (simp add: while_body_dry)
    show ?thesis
    proof (cases r0)
      case (Inl e)
      with add_entries_step [OF False wb] add_entries_step [OF False wb']
      show ?thesis by simp
    next
      case (Inr st)
      obtain new' ex' lc' where st: "st = (new', ex', lc')" by (cases st)
      from wb Inr st False have "length new' < length new" by (auto dest: while_body_less)
      from less [OF this]
      have "add_entries_to_feedly h new' ex' T lc' True =
        (dry_run (fst (add_entries_to_feedly h new' ex' T lc' False)),
         snd (add_entries_to_feedly h new' ex' T lc' False))" .
      with add_entries_step [OF False wb] add_entries_step [OF False wb'] Inr st
      show ?thesis by simp
    qed
  qed
qed

lemma sync_type_dry:
  "sync_type h T names fd lc True =
     (dry_run (fst (sync_type h T names fd lc False)), snd (sync_type h T names fd lc False))"
proof (cases "feedly_entities_keys fd")
  case (Inl e)
  then show ?thesis by (simp add: sync_type_def)
next
  case (Inr ls)
  obtain evs r where a: "add_entries_to_feedly h
      (missing_entries names (filter (belongs T) fd)) (filter (belongs T) fd) T lc False = (evs, r)"
    by force
  then have "add_entries_to_feedly h
      (missing_entries names (filter (belongs T) fd)) (filter (belongs T) fd) T lc True
        = (dry_run evs, r)"
    by (simp add: add_entries_dry)
  with Inr a show ?thesis
    by (cases r) (auto simp: sync_type_def Let_def)
qed

lemma sync_loop_dry:
  "sync_loop h jira fd lc True =
     (dry_run (fst (sync_loop h jira fd lc False)), snd (sync_loop h jira fd lc False))"
proof (induction jira arbitrary: fd lc)
  case Nil
  then show ?case by simp
next
  case (Cons p rest)
  obtain T names where p: "p = (T, names)" by (cases p)
  obtain evs r where s: "sync_type h T names fd lc False = (evs, r)" by force
  then have s': "sync_type h T names fd lc True = (dry_run evs, r)"
    by (simp add: sync_type_dry)
  show ?case
  proof (cases r)
    case (Inl e)
    with p s s' show ?thesis by simp
  next
    case (Inr st)
    obtain fd' lc' where st: "st = (fd', lc')" by (cases st)
    obtain evs1 r1 where rec: "sync_loop h rest fd' lc' False = (evs1, r1)" by force
    with Cons.IH [of fd' lc'] have "sync_loop h rest fd' lc' True = (dry_run evs1, r1)"
      by simp
    with p s s' Inr st rec show ?thesis by simp
  qed
qed

lemma sync_to_feedly_dry:
  "sync_to_feedly h jira_data feedly_data True =
     (dry_run (fst (sync_to_feedly h jira_data feedly_data False)),
      snd (sync_to_feedly h jira_data feedly_data False))"
  by (cases "feedly_entities_keys feedly_data") (simp_all add: sync_to_feedly_def sync_loop_dry)

lemma sync_to_feedly_rendered:
  "list_all rendered (fst (sync_to_feedly h jira_data feedly_data True))"
  using sync_to_feedly_dispatch_ok [of True h jira_data feedly_data]
  by (simp add: dispatch_ok_def)

lemma sync_to_feedly_paced:
  "paced (fst (sync_to_feedly h jira_data feedly_data False))"
  using sync_to_feedly_dispatch_ok [of False h jira_data feedly_data]
  by (simp add: dispatch_ok_def)

text \<open>
  Claim C9. A run of \<open>sync_to_feedly\<close> in test mode is the run without test mode with
  every PUT and every POST replaced by the rendering of its payload and every sleep left
  out, and it returns the same result: each intent of the real run is rendered, in the
  same order, and nothing is sent and nothing sleeps. Outside test mode every PUT and
  every POST is followed at once by \<open>time.sleep(1)\<close>, and nothing else happens.
\<close>

theorem dry_run_and_pacing:
  "sync_to_feedly h jira_data feedly_data True =
     (dry_run (fst (sync_to_feedly h jira_data feedly_data False)),
      snd (sync_to_feedly h jira_data feedly_data False))
   \<and> list_all rendered (fst (sync_to_feedly h jira_data feedly_data True))
   \<and> paced (fst (sync_to_feedly h jira_data feedly_data False))"
  using sync_to_feedly_dry sync_to_feedly_rendered sync_to_feedly_paced by blast



theorem dry_run_and_pacing_witness:
  "fst (sync_to_feedly (\<lambda>_. 0) [(''Server'', [''web-1'']), (''Asset'', [''db-1''])]
        [\<lparr>item_id = Some ''a1'', label = Some ''Server-1'',
          entities = Some [customKeyword ''web-0'']\<rparr>] False)
   = [PUT \<lparr>p_id = Some ''a1'', p_label = ''Server-1'',
            p_entities = [customKeyword ''web-0'', customKeyword ''web-1''],
            p_type = ''customTopic''\<rparr>,
      Sleep 1,
      POST \<lparr>p_id = None, p_label = ''Asset-1'', p_entities = [customKeyword ''db-1''],
             p_type = ''customTopic''\<rparr>,
      Sleep 1]
   \<and> fst (sync_to_feedly (\<lambda>_. 0) [(''Server'', [''web-1'']), (''Asset'', [''db-1''])]
        [\<lparr>item_id = Some ''a1'', label = Some ''Server-1'',
          entities = Some [customKeyword ''web-0'']\<rparr>] True)
   = [Log_PUT \<lparr>p_id = Some ''a1'', p_label = ''Server-1'',
            p_entities = [customKeyword ''web-0'', customKeyword ''web-1''],
            p_type = ''customTopic''\<rparr>,
      Log_POST \<lparr>p_id = None, p_label = ''Asset-1'', p_entities = [customKeyword ''db-1''],
             p_type = ''customTopic''\<rparr>]"
proof -
  have real: "fst (sync_to_feedly (\<lambda>_. 0) [(''Server'', [''web-1'']), (''Asset'', [''db-1''])]
        [\<lparr>item_id = Some ''a1'', label = Some ''Server-1'',
          entities = Some [customKeyword ''web-0'']\<rparr>] False)
   = [PUT \<lparr>p_id = Some ''a1'', p_label = ''Server-1'',
            p_entities = [customKeyword ''web-0'', customKeyword ''web-1''],
            p_type = ''customTopic''\<rparr>,
      Sleep 1,
      POST \<lparr>p_id = None, p_label = ''Asset-1'', p_entities = [customKeyword ''db-1''],
             p_type = ''customTopic''\<rparr>,
      Sleep 1]"
    by code_simp
  from dry_run_and_pacing [of "\<lambda>_. 0" "[(''Server'', [''web-1'']), (''Asset'', [''db-1''])]"
        "[\<lparr>item_id = Some ''a1'', label = Some ''Server-1'',
          entities = Some [customKeyword ''web-0'']\<rparr>]"]
  have "fst (sync_to_feedly (\<lambda>_. 0) [(''Server'', [''web-1'']), (''Asset'', [''db-1''])]
        [\<lparr>item_id = Some ''a1'', label = Some ''Server-1'',
          entities = Some [customKeyword ''web-0'']\<rparr>] True)
     = dry_run (fst (sync_to_feedly (\<lambda>_. 0) [(''Server'', [''web-1'']), (''Asset'', [''db-1''])]
        [\<lparr>item_id = Some ''a1'', label = Some ''Server-1'',
          entities = Some [customKeyword ''web-0'']\<rparr>] False))"
    by (simp only: fst_conv)
  then have "fst (sync_to_feedly (\<lambda>_. 0) [(''Server'', [''web-1'']), (''Asset'', [''db-1''])]
        [\<lparr>item_id = Some ''a1'', label = Some ''Server-1'',
          entities = Some [customKeyword ''web-0'']\<rparr>] True)
   = [Log_PUT \<lparr>p_id = Some ''a1'', p_label = ''Server-1'',
            p_entities = [customKeyword ''web-0'', customKeyword ''web-1''],
            p_type = ''customTopic''\<rparr>,
      Log_POST \<lparr>p_id = None, p_label = ''Asset-1'', p_entities = [customKeyword ''db-1''],
             p_type = ''customTopic''\<rparr>]"
    unfolding real by (simp add: dry_run_def)
  with real show ?thesis by (rule conjI)
qed

section \<open>Progress of the packing loop\<close>






section \<open>Induction along the loop\<close>

lemma add_entries_Inr:
  assumes "new \<noteq> []" and "while_body h new ex T lc t = (evs, Inr (new', ex', lc'))"
  shows "add_entries_to_feedly h new ex T lc t =
           (evs @ fst (add_entries_to_feedly h new' ex' T lc' t),
            snd (add_entries_to_feedly h new' ex' T lc' t))"
  using add_entries_step [OF assms] by simp

lemma add_entries_Inl:
  assumes "new \<noteq> []" and "while_body h new ex T lc t = (evs, Inl e)"
  shows "add_entries_to_feedly h new ex T lc t = (evs, Inl e)"
  using add_entries_step [OF assms] by simp

lemma add_entries_induct_aux:
  assumes "\<forall>ex lc. P [] ex lc"
    and "\<forall>new ex lc e. new \<noteq> [] \<longrightarrow> while_body h new ex T lc t = ([], Inl e) \<longrightarrow> P new ex lc"
    and "\<forall>new ex lc pre item post item' new' evs.
        new \<noteq> [] \<longrightarrow> ex = pre @ item # post \<longrightarrow> (\<forall>x\<in>set pre. try_item h new x t = Skip) \<longrightarrow>
        try_item h new item t = Added evs item' new' \<longrightarrow>
        while_body h new ex T lc t = (evs, Inr (new', pre @ item' # post, lc)) \<longrightarrow>
        P new' (pre @ item' # post) lc \<longrightarrow> P new ex lc"
    and "\<forall>new ex lc new' lc' evs.
        new \<noteq> [] \<longrightarrow> (\<forall>x\<in>set ex. try_item h new x t = Skip) \<longrightarrow>
        create_new_feedly_list h new T lc t = (evs, Inr (new', lc')) \<longrightarrow>
        while_body h new ex T lc t = (evs, Inr (new', ex, lc')) \<longrightarrow>
        P new' ex lc' \<longrightarrow> P new ex lc"
  shows "P new ex lc"
  using assms
proof (induction h new ex T lc t rule: add_entries_to_feedly.induct)
  case (1 h new ex T lc t)
  note empty = "1.prems"(1) and raise = "1.prems"(2) and update = "1.prems"(3)
    and create = "1.prems"(4)
  show ?case
  proof (cases "new = []")
    case True
    then show ?thesis using empty by simp
  next
    case False
    obtain evs0 r0 where wb: "while_body h new ex T lc t = (evs0, r0)" by force
    from wb False show ?thesis
    proof (cases rule: while_body_cases)
      case (raise e)
      with wb have "while_body h new ex T lc t = ([], Inl e)" by simp
      with "1.prems"(2) False show ?thesis by blast
    next
      case (update pre item post item' new')
      have "P new' (pre @ item' # post) lc"
        using "1.IH" [OF False wb [symmetric] update(1) refl refl empty "1.prems"(2)
            "1.prems"(3) "1.prems"(4)] .
      moreover from wb update(1)
      have "while_body h new ex T lc t = (evs0, Inr (new', pre @ item' # post, lc))" by simp
      ultimately show ?thesis
        using "1.prems"(3) False update(2,3,4) by blast
    next
      case (create new' lc')
      have "P new' ex lc'"
        using "1.IH" [OF False wb [symmetric] create(1) refl refl empty "1.prems"(2)
            "1.prems"(3) "1.prems"(4)] .
      moreover from wb create(1)
      have "while_body h new ex T lc t = (evs0, Inr (new', ex, lc'))" by simp
      ultimately show ?thesis
        using "1.prems"(4) False create(2,3) by blast
    qed
  qed
qed

lemma add_entries_induct [case_names empty raise update create]:
  assumes "\<And>ex lc. P [] ex lc"
    and "\<And>new ex lc e. new \<noteq> [] \<Longrightarrow> while_body h new ex T lc t = ([], Inl e) \<Longrightarrow> P new ex lc"
    and "\<And>new ex lc pre item post item' new' evs.
        new \<noteq> [] \<Longrightarrow> ex = pre @ item # post \<Longrightarrow> \<forall>x\<in>set pre. try_item h new x t = Skip \<Longrightarrow>
        try_item h new item t = Added evs item' new' \<Longrightarrow>
        while_body h new ex T lc t = (evs, Inr (new', pre @ item' # post, lc)) \<Longrightarrow>
        P new' (pre @ item' # post) lc \<Longrightarrow> P new ex lc"
    and "\<And>new ex lc new' lc' evs.
        new \<noteq> [] \<Longrightarrow> \<forall>x\<in>set ex. try_item h new x t = Skip \<Longrightarrow>
        create_new_feedly_list h new T lc t = (evs, Inr (new', lc')) \<Longrightarrow>
        while_body h new ex T lc t = (evs, Inr (new', ex, lc')) \<Longrightarrow>
        P new' ex lc' \<Longrightarrow> P new ex lc"
  shows "P new ex lc"
proof (rule add_entries_induct_aux [where P = P and h = h and T = T and t = t])
  show "\<forall>ex lc. P [] ex lc" using assms(1) by blast
  show "\<forall>new ex lc e. new \<noteq> [] \<longrightarrow> while_body h new ex T lc t = ([], Inl e) \<longrightarrow> P new ex lc"
    using assms(2) by blast
  show "\<forall>new ex lc pre item post item' new' evs.
        new \<noteq> [] \<longrightarrow> ex = pre @ item # post \<longrightarrow> (\<forall>x\<in>set pre. try_item h new x t = Skip) \<longrightarrow>
        try_item h new item t = Added evs item' new' \<longrightarrow>
        while_body h new ex T lc t = (evs, Inr (new', pre @ item' # post, lc)) \<longrightarrow>
        P new' (pre @ item' # post) lc \<longrightarrow> P new ex lc"
    using assms(3) by blast
  show "\<forall>new ex lc new' lc' evs.
        new \<noteq> [] \<longrightarrow> (\<forall>x\<in>set ex. try_item h new x t = Skip) \<longrightarrow>
        create_new_feedly_list h new T lc t = (evs, Inr (new', lc')) \<longrightarrow>
        while_body h new ex T lc t = (evs, Inr (new', ex, lc')) \<longrightarrow>
        P new' ex lc' \<longrightarrow> P new ex lc"
    using assms(4) by blast
qed

section \<open>When an item is skipped\<close>

lemma try_item_Skip_iff:
  "try_item h new item t = Skip \<longleftrightarrow>
     (\<exists>es. entities item = Some es
        \<and> (50 \<le> length es \<or> (\<forall>n\<in>set new. Some n \<in> current_entities item)))"
  by (auto simp: try_item_def Let_def minus_entities_def filter_empty_conv
      split: option.splits)

lemma try_item_Skip_mono:
  "try_item h new item t = Skip \<Longrightarrow> set new' \<subseteq> set new \<Longrightarrow> try_item h new' item t = Skip"
  unfolding try_item_Skip_iff by blast

lemma try_item_no_Raise:
  "entities item \<noteq> None \<Longrightarrow> item_id item \<noteq> None \<Longrightarrow> label item \<noteq> None
     \<Longrightarrow> try_item h new item t \<noteq> Raise e"
  by (auto simp: try_item_def Let_def split: option.splits)

lemma scan_existing_Inl:
  "scan_existing h new ex t = Inl e \<Longrightarrow> \<exists>item\<in>set ex. try_item h new item t = Raise e"
proof (induction ex)
  case Nil
  then show ?case by simp
next
  case (Cons a rest)
  then show ?case
    by (cases "try_item h new a t") (auto split: sum.splits option.splits)
qed

lemma stuck_no_updates:
  "\<forall>x\<in>set ex. try_item h new x t = Skip
     \<Longrightarrow> updates (fst (add_entries_to_feedly h new ex T lc t)) = []"
proof (induction new ex lc rule: add_entries_induct [where h = h and T = T and t = t])
  case (empty ex lc)
  then show ?case by simp
next
  case (raise new ex lc e)
  then show ?case by (simp add: add_entries_Inl)
next
  case (update new ex lc pre item post item' new' evs)
  then show ?case by auto
next
  case (create new ex lc new' lc' evs)
  from create(3) create(1) have "set new' \<subset> set new" by (rule create_psubset)
  with create.prems have "\<forall>x\<in>set ex. try_item h new' x t = Skip"
    by (auto intro: try_item_Skip_mono)
  with create.IH have "updates (fst (add_entries_to_feedly h new' ex T lc' t)) = []" by simp
  moreover from create(3) have "updates evs = []" by (elim create_new_feedly_list_Inr) simp
  ultimately show ?case using add_entries_Inr [OF create(1) create(4)] by simp
qed

end
